theory Spec2Isabelle
  imports Main "HOL-Library.Word"
begin

unbundle bit_operations_syntax

text \<open>
  The base64 library \<^verbatim>\<open>src/base64.cpp\<close>: the two alphabets and the reverse table,
  \<^verbatim>\<open>pos_of_char\<close>, \<^verbatim>\<open>insert_linebreaks\<close>, the encoders \<^verbatim>\<open>base64_encode\<close>, \<^verbatim>\<open>encode_pem\<close>
  and \<^verbatim>\<open>encode_mime\<close>, and \<^verbatim>\<open>decode\<close>. The sections "Data model" and "Operations" follow
  the source, function by function and with its names; line numbers are those of the
  source file. "Notions of the statements" and "Notions of the proofs" define what the
  theorems speak with. The lemmas come next, and the section "Results" at the end
  states C1 to C10 in this order.
\<close>

section \<open>Data model\<close>

text \<open>
  The library works on \<^verbatim>\<open>std::string\<close> values, for text and for raw bytes alike
  (\<^verbatim>\<open>encode\<close> reinterprets the characters as \<^verbatim>\<open>unsigned char\<close>). Both are lists of
  \<^typ>\<open>char\<close> here; a \<^typ>\<open>char\<close> is one byte, read by \<^const>\<open>of_char\<close> and built by
  \<^const>\<open>char_of\<close>.

  Integer widths are those of an LP64 platform. An \<^verbatim>\<open>unsigned int\<close> is a 32-bit word,
  whose arithmetic wraps. A \<^verbatim>\<open>size_t\<close> is a natural number; the only \<^verbatim>\<open>size_t\<close>
  operation of the source that can leave the range on a string that fits into memory is
  the subtraction \<^verbatim>\<open>in_len - 4\<close> of \<^verbatim>\<open>decode\<close>, and its wrap-around modulo \<open>2 ^ 64\<close>
  is written out there.
\<close>

type_synonym uint = "32 word"

text \<open>
  \<^verbatim>\<open>pos_of_char\<close> throws \<^verbatim>\<open>std::runtime_error("Input is not valid base64-encoded data.")\<close>,
  the only exception of the library: \<open>InvalidSymbol\<close>. Reading a \<^verbatim>\<open>std::string\<close> beyond
  its terminator is undefined in C++: \<open>OutOfBounds\<close>.
\<close>

datatype error = InvalidSymbol | OutOfBounds

text \<open>
  The two alphabets \<^verbatim>\<open>to_base64_chars[url]\<close> (lines 44 to 53) and the reverse table
  (lines 55 to 74), one row of the source per row; the table has 64 where the byte is no
  symbol.
\<close>

definition to_base64_chars :: "bool \<Rightarrow> string" where
  "to_base64_chars url =
     (if url
      then ''ABCDEFGHIJKLMNOPQRSTUVWXYZabcdefghijklmnopqrstuvwxyz0123456789-_''
      else ''ABCDEFGHIJKLMNOPQRSTUVWXYZabcdefghijklmnopqrstuvwxyz0123456789+/'')"

definition from_base64_chars :: "nat list" where
  "from_base64_chars =
     [64, 64, 64, 64, 64, 64, 64, 64, 64, 64, 64, 64, 64, 64, 64, 64] @
     [64, 64, 64, 64, 64, 64, 64, 64, 64, 64, 64, 64, 64, 64, 64, 64] @
     [64, 64, 64, 64, 64, 64, 64, 64, 64, 64, 64, 62, 64, 62, 64, 63] @
     [52, 53, 54, 55, 56, 57, 58, 59, 60, 61, 64, 64, 64, 64, 64, 64] @
     [64,  0,  1,  2,  3,  4,  5,  6,  7,  8,  9, 10, 11, 12, 13, 14] @
     [15, 16, 17, 18, 19, 20, 21, 22, 23, 24, 25, 64, 64, 64, 64, 63] @
     [64, 26, 27, 28, 29, 30, 31, 32, 33, 34, 35, 36, 37, 38, 39, 40] @
     [41, 42, 43, 44, 45, 46, 47, 48, 49, 50, 51, 64, 64, 64, 64, 64] @
     [64, 64, 64, 64, 64, 64, 64, 64, 64, 64, 64, 64, 64, 64, 64, 64] @
     [64, 64, 64, 64, 64, 64, 64, 64, 64, 64, 64, 64, 64, 64, 64, 64] @
     [64, 64, 64, 64, 64, 64, 64, 64, 64, 64, 64, 64, 64, 64, 64, 64] @
     [64, 64, 64, 64, 64, 64, 64, 64, 64, 64, 64, 64, 64, 64, 64, 64] @
     [64, 64, 64, 64, 64, 64, 64, 64, 64, 64, 64, 64, 64, 64, 64, 64] @
     [64, 64, 64, 64, 64, 64, 64, 64, 64, 64, 64, 64, 64, 64, 64, 64] @
     [64, 64, 64, 64, 64, 64, 64, 64, 64, 64, 64, 64, 64, 64, 64, 64] @
     [64, 64, 64, 64, 64, 64, 64, 64, 64, 64, 64, 64, 64, 64, 64, 64]"

section \<open>Operations\<close>

subsection \<open>Reverse lookup\<close>

text \<open>\<^verbatim>\<open>pos_of_char\<close> (lines 76 to 84): the entry of the table, or the exception.\<close>

definition pos_of_char :: "char \<Rightarrow> error + uint" where
  "pos_of_char chr =
     (if from_base64_chars ! of_char chr \<noteq> 64
      then Inr (of_nat (from_base64_chars ! of_char chr))
      else Inl InvalidSymbol)"

subsection \<open>Line wrapping\<close>

text \<open>
  \<^verbatim>\<open>insert_linebreaks\<close> (lines 86 to 100) and its loop. With \<open>distance = 0\<close> the position
  never overtakes the growing string, so the loop is a partial function: \<open>None\<close> is "does
  not return".
\<close>

partial_function (option) insert_loop :: "nat \<Rightarrow> nat \<Rightarrow> string \<Rightarrow> string option" where
  "insert_loop distance pos str =
     (if pos < length str
      then insert_loop distance (pos + (distance + 1)) (take pos str @ [CHR 0x0A] @ drop pos str)
      else Some str)"

definition insert_linebreaks :: "string \<Rightarrow> nat \<Rightarrow> string option" where
  "insert_linebreaks str distance =
     (if str = [] then Some str else insert_loop distance distance str)"

subsection \<open>Encoder\<close>

text \<open>
  \<^verbatim>\<open>unsigned(c)\<close> (and \<^verbatim>\<open>int(c)\<close>, which has the same value) for a byte \<open>c\<close>
  read through the \<^verbatim>\<open>unsigned char\<close> pointer.
\<close>

definition byte_val :: "char \<Rightarrow> uint" where
  "byte_val chr = of_nat (of_char chr)"

text \<open>
  The main loop of \<^verbatim>\<open>base64_encode\<close> (lines 147 to 155). The counter \<open>pos\<close> is an
  \<^verbatim>\<open>unsigned int\<close> (line 144) and \<open>len\<close> a \<^verbatim>\<open>size_t\<close> (line 126): the comparison widens
  \<open>pos\<close>, the increment and the index expressions \<^verbatim>\<open>pos + 1\<close> and \<^verbatim>\<open>pos + 2\<close> wrap at
  \<open>2 ^ 32\<close>. A loop that does not end is the value \<open>None\<close>. The calls of \<^verbatim>\<open>reserve\<close>
  change no value and are left out. No index leaves the byte sequence: while nothing
  has wrapped, \<open>pos + 2 < len\<close>, and an index that has wrapped is below \<open>2 ^ 32 \<le> len\<close>.
\<close>

partial_function (option) encode_loop ::
  "string \<Rightarrow> string \<Rightarrow> nat \<Rightarrow> uint \<Rightarrow> string \<Rightarrow> (uint \<times> string) option" where
  "encode_loop base64_chars bytes_to_encode len pos ret =
     (if unat pos < len
      then
        (let chunk = push_bit 16 (byte_val (bytes_to_encode ! unat (pos + 0)))
                     OR push_bit 8 (byte_val (bytes_to_encode ! unat (pos + 1)))
                     OR byte_val (bytes_to_encode ! unat (pos + 2))
         in encode_loop base64_chars bytes_to_encode len (pos + 3)
              (ret @ [base64_chars ! unat (drop_bit 18 chunk),
                      base64_chars ! unat (drop_bit 12 chunk AND 0x3f),
                      base64_chars ! unat (drop_bit 6 chunk AND 0x3f),
                      base64_chars ! unat (chunk AND 0x3f)]))
      else Some (pos, ret))"

text \<open>
  \<^verbatim>\<open>base64_encode\<close> (lines 122 to 177): the loop, then the \<^verbatim>\<open>switch\<close> on \<open>pad\<close> (lines 157
  to 174), which reads the last one or two bytes at \<^verbatim>\<open>pos + 0\<close> and \<^verbatim>\<open>pos + 1\<close>, again in
  32 bits.
\<close>

definition base64_encode :: "string \<Rightarrow> bool \<Rightarrow> string option" where
  "base64_encode bytes_to_encode url =
     (let in_len = length bytes_to_encode;
          pad = in_len mod 3;
          len = in_len - pad;
          trailing_char = (if url then CHR ''.'' else CHR ''='');
          base64_chars = to_base64_chars url
      in case encode_loop base64_chars bytes_to_encode len 0 [] of
           None \<Rightarrow> None
         | Some (pos, ret) \<Rightarrow>
             if pad = 2 then
               (let chunk = push_bit 8 (byte_val (bytes_to_encode ! unat (pos + 0)))
                            OR byte_val (bytes_to_encode ! unat (pos + 1))
                in Some (ret @ [base64_chars ! unat (drop_bit 10 chunk),
                                base64_chars ! unat (drop_bit 4 chunk AND 0x3f),
                                base64_chars ! unat (push_bit 2 chunk AND 0x3f),
                                trailing_char]))
             else if pad = 1 then
               (let chunk = byte_val (bytes_to_encode ! unat (pos + 0))
                in Some (ret @ [base64_chars ! unat (drop_bit 2 chunk),
                                base64_chars ! unat (push_bit 4 chunk AND 0x3f),
                                trailing_char,
                                trailing_char]))
             else Some ret)"

text \<open>\<^verbatim>\<open>encode_with_line_breaks\<close>, \<^verbatim>\<open>encode_pem\<close> and \<^verbatim>\<open>encode_mime\<close> (lines 102 to 115).\<close>

definition encode_with_line_breaks :: "string \<Rightarrow> nat \<Rightarrow> string option" where
  "encode_with_line_breaks s line_length =
     (case base64_encode s False of
        None \<Rightarrow> None
      | Some str \<Rightarrow> insert_linebreaks str line_length)"


definition encode_mime :: "string \<Rightarrow> string option" where
  "encode_mime s = encode_with_line_breaks s 76"

subsection \<open>Decoder\<close>

text \<open>
  \<^verbatim>\<open>encoded_string[i]\<close> on a \<^verbatim>\<open>std::string\<close>: the character at \<open>i\<close>, the terminator
  \<^verbatim>\<open>'\0'\<close> at \<open>i = size()\<close>, undefined beyond. (On a \<^verbatim>\<open>std::string_view\<close> the read at
  \<open>size()\<close> is undefined as well. The decoder comes to it only on a text that is not made
  of whole quads.)
\<close>

definition string_at :: "string \<Rightarrow> nat \<Rightarrow> error + char" where
  "string_at encoded_string i =
     (if i < length encoded_string then Inr (encoded_string ! i)
      else if i = length encoded_string then Inr (CHR 0x00)
      else Inl OutOfBounds)"

text \<open>\<^verbatim>\<open>pos_of_char(encoded_string[i])\<close>.\<close>

definition pos_at :: "string \<Rightarrow> nat \<Rightarrow> error + uint" where
  "pos_at encoded_string i =
     (case string_at encoded_string i of
        Inl e \<Rightarrow> Inl e
      | Inr chr \<Rightarrow> pos_of_char chr)"

text \<open>
  The chunk expressions of \<^verbatim>\<open>decode\<close>, over two (line 220), three (line 223) and four
  characters (lines 212 and 227). C++ leaves the order of the operands of \<^verbatim>\<open>|\<close> open;
  they are evaluated from left to right here. The order matters only where two of the
  look-ups fail in different ways, which takes a text that is not made of whole quads.
\<close>

definition chunk2 :: "string \<Rightarrow> nat \<Rightarrow> error + uint" where
  "chunk2 encoded_string pos =
     (case pos_at encoded_string (pos + 0) of Inl e \<Rightarrow> Inl e | Inr a \<Rightarrow>
     (case pos_at encoded_string (pos + 1) of Inl e \<Rightarrow> Inl e | Inr b \<Rightarrow>
        Inr (push_bit 6 a OR b)))"

definition chunk3 :: "string \<Rightarrow> nat \<Rightarrow> error + uint" where
  "chunk3 encoded_string pos =
     (case pos_at encoded_string (pos + 0) of Inl e \<Rightarrow> Inl e | Inr a \<Rightarrow>
     (case pos_at encoded_string (pos + 1) of Inl e \<Rightarrow> Inl e | Inr b \<Rightarrow>
     (case pos_at encoded_string (pos + 2) of Inl e \<Rightarrow> Inl e | Inr c \<Rightarrow>
        Inr (push_bit 12 a OR push_bit 6 b OR c))))"

definition chunk4 :: "string \<Rightarrow> nat \<Rightarrow> error + uint" where
  "chunk4 encoded_string pos =
     (case pos_at encoded_string (pos + 0) of Inl e \<Rightarrow> Inl e | Inr a \<Rightarrow>
     (case pos_at encoded_string (pos + 1) of Inl e \<Rightarrow> Inl e | Inr b \<Rightarrow>
     (case pos_at encoded_string (pos + 2) of Inl e \<Rightarrow> Inl e | Inr c \<Rightarrow>
     (case pos_at encoded_string (pos + 3) of Inl e \<Rightarrow> Inl e | Inr d \<Rightarrow>
        Inr (push_bit 18 a OR push_bit 12 b OR push_bit 6 c OR d)))))"

text \<open>\<^verbatim>\<open>static_cast<std::string::value_type>(chunk >> n & 0xff)\<close>.\<close>

definition byte_of :: "uint \<Rightarrow> nat \<Rightarrow> char" where
  "byte_of chunk n = char_of (unat (drop_bit n chunk AND 0xff))"

text \<open>
  The main loop of \<^verbatim>\<open>decode\<close> (lines 211 to 217), with its counter \<^verbatim>\<open>size_t pos\<close>. It
  goes on only after four successful look-ups, which lie inside the string: that is why
  it ends whatever \<open>len\<close> is.
\<close>

function decode_loop :: "string \<Rightarrow> nat \<Rightarrow> nat \<Rightarrow> string \<Rightarrow> error + (nat \<times> string)" where
  "decode_loop encoded_string len pos ret =
     (if pos < len
      then (case chunk4 encoded_string pos of
              Inl e \<Rightarrow> Inl e
            | Inr chunk \<Rightarrow>
                decode_loop encoded_string len (pos + 4)
                  (ret @ [byte_of chunk 16, byte_of chunk 8, byte_of chunk 0]))
      else Inr (pos, ret))"
  by pat_completeness auto
termination
  by (relation "measure (\<lambda>(encoded_string, len, pos, ret). length encoded_string - pos)")
     (auto simp: chunk4_def pos_at_def string_at_def pos_of_char_def from_base64_chars_def
           split: sum.splits if_splits)

declare decode_loop.simps [simp del]

definition is_pad :: "char \<Rightarrow> bool" where
  "is_pad chr \<longleftrightarrow> chr = CHR ''='' \<or> chr = CHR ''.''"

text \<open>
  The final quad of \<^verbatim>\<open>decode\<close> (lines 219 to 231), from the position where the loop
  stopped; \<open>is_pad\<close> is the test \<^verbatim>\<open>== '=' || == '.'\<close> of lines 219 and 222.
\<close>

definition decode_tail :: "string \<Rightarrow> nat \<Rightarrow> string \<Rightarrow> error + string" where
  "decode_tail encoded_string pos ret =
     (case string_at encoded_string (pos + 2) of Inl e \<Rightarrow> Inl e | Inr c2 \<Rightarrow>
      (if is_pad c2 then
        (case chunk2 encoded_string pos of Inl e \<Rightarrow> Inl e | Inr chunk \<Rightarrow>
           Inr (ret @ [byte_of chunk 4]))
      else
        (case string_at encoded_string (pos + 3) of Inl e \<Rightarrow> Inl e | Inr c3 \<Rightarrow>
         (if is_pad c3 then
           (case chunk3 encoded_string pos of Inl e \<Rightarrow> Inl e | Inr chunk \<Rightarrow>
              Inr (ret @ [byte_of chunk 10, byte_of chunk 2]))
         else
           (case chunk4 encoded_string pos of Inl e \<Rightarrow> Inl e | Inr chunk \<Rightarrow>
              Inr (ret @ [byte_of chunk 16, byte_of chunk 8, byte_of chunk 0]))))))"

text \<open>
  \<^verbatim>\<open>decode\<close> (lines 180 to 234; \<^verbatim>\<open>base64_decode\<close> only forwards to it). The empty
  input is returned at once (line 186). With \<open>remove_linebreaks\<close> it calls itself once,
  on the copy without line breaks (lines 188 to 195). \<open>len\<close> is \<^verbatim>\<open>in_len - 4\<close> in
  \<^verbatim>\<open>size_t\<close> (line 207): below 4 the subtraction wraps. There is no other check of the
  length.
\<close>

function decode :: "string \<Rightarrow> bool \<Rightarrow> error + string" where
  "decode encoded_string True =
     (if encoded_string = [] then Inr []
      else decode (filter (\<lambda>chr. chr \<noteq> CHR 0x0A) encoded_string) False)"
| "decode encoded_string False =
     (if encoded_string = [] then Inr []
      else
        (let in_len = length encoded_string;
             len = (if in_len < 4 then 2 ^ 64 + in_len - 4 else in_len - 4)
         in case decode_loop encoded_string len 0 [] of
              Inl e \<Rightarrow> Inl e
            | Inr (pos, ret) \<Rightarrow> decode_tail encoded_string pos ret))"
  by pat_completeness auto
termination
  by (relation "measure (\<lambda>(encoded_string, remove_linebreaks). if remove_linebreaks then 1 else 0)")
     auto

declare decode.simps [simp del]

section \<open>Notions of the statements\<close>





section \<open>Notions of the proofs\<close>

text \<open>The chunks that the encoder builds from three and from two bytes.\<close>

definition chunk_of3 :: "char \<Rightarrow> char \<Rightarrow> char \<Rightarrow> uint" where
  "chunk_of3 a b c = push_bit 16 (byte_val a) OR push_bit 8 (byte_val b) OR byte_val c"

definition chunk_of2 :: "char \<Rightarrow> char \<Rightarrow> uint" where
  "chunk_of2 a b = push_bit 8 (byte_val a) OR byte_val b"

text \<open>
  The encoder as a function on lists, group by group: what the loop and the \<^verbatim>\<open>switch\<close> of
  \<^verbatim>\<open>base64_encode\<close> write for three bytes, for two and for one.
\<close>

definition enc3 :: "string \<Rightarrow> char \<Rightarrow> char \<Rightarrow> char \<Rightarrow> string" where
  "enc3 tab a b c =
     [tab ! unat (drop_bit 18 (chunk_of3 a b c)),
      tab ! unat (drop_bit 12 (chunk_of3 a b c) AND 0x3f),
      tab ! unat (drop_bit 6 (chunk_of3 a b c) AND 0x3f),
      tab ! unat (chunk_of3 a b c AND 0x3f)]"

definition enc2 :: "string \<Rightarrow> char \<Rightarrow> char \<Rightarrow> char \<Rightarrow> string" where
  "enc2 tab trailing_char a b =
     [tab ! unat (drop_bit 10 (chunk_of2 a b)),
      tab ! unat (drop_bit 4 (chunk_of2 a b) AND 0x3f),
      tab ! unat (push_bit 2 (chunk_of2 a b) AND 0x3f),
      trailing_char]"

definition enc1 :: "string \<Rightarrow> char \<Rightarrow> char \<Rightarrow> string" where
  "enc1 tab trailing_char a =
     [tab ! unat (drop_bit 2 (byte_val a)),
      tab ! unat (push_bit 4 (byte_val a) AND 0x3f),
      trailing_char,
      trailing_char]"

fun enc_groups :: "string \<Rightarrow> string \<Rightarrow> string" where
  "enc_groups tab (a # b # c # bytes) = enc3 tab a b c @ enc_groups tab bytes"
| "enc_groups tab bytes = []"

definition trailing :: "bool \<Rightarrow> char" where
  "trailing url = (if url then CHR ''.'' else CHR ''='')"

fun enc :: "bool \<Rightarrow> string \<Rightarrow> string" where
  "enc url [] = []"
| "enc url [a] = enc1 (to_base64_chars url) (trailing url) a"
| "enc url [a, b] = enc2 (to_base64_chars url) (trailing url) a b"
| "enc url (a # b # c # bytes) = enc3 (to_base64_chars url) a b c @ enc url bytes"

text \<open>
  The text with a line break after every \<open>d\<close> characters that are followed by another
  character: what \<^verbatim>\<open>insert_linebreaks\<close> computes for \<open>d > 0\<close>.
\<close>

function wrap :: "nat \<Rightarrow> string \<Rightarrow> string" where
  "wrap d s = (if 0 < d \<and> d < length s then take d s @ [CHR 0x0A] @ wrap d (drop d s) else s)"
  by pat_completeness auto
termination
  by (relation "measure (\<lambda>(d, s). length s)") auto

declare wrap.simps [simp del]

text \<open>A symbol of an alphabet is neither a pad symbol nor a line break.\<close>

definition plain :: "char \<Rightarrow> bool" where
  "plain chr \<longleftrightarrow> \<not> is_pad chr \<and> chr \<noteq> CHR 0x0A"

section \<open>Evaluation\<close>

text \<open>The equations that evaluate the encoder and the decoder on a given input.\<close>

lemmas encode_eval = base64_encode_def encode_loop.simps byte_val_def to_base64_chars_def Let_def

lemmas decode_eval = decode.simps decode_loop.simps decode_tail_def chunk4_def chunk3_def
  chunk2_def pos_at_def string_at_def pos_of_char_def from_base64_chars_def byte_of_def
  is_pad_def char_of_eq_iff

section \<open>Bytes, sextets and chunks\<close>

text \<open>
  The arithmetic of one group: a chunk of three, two or one bytes is cut into sextets by
  the encoder, the decoder puts the sextets together again and cuts the bytes out.
\<close>

lemma of_char_less_256: "(of_char c :: nat) < 256"
proof -
  have "(of_char c :: nat) mod 256 < 256" by (rule mod_less_divisor) simp
  then show ?thesis by simp
qed

lemma of_char_take_bit: "take_bit 8 (of_char c :: nat) = of_char c"
  by (simp add: take_bit_eq_mod)

lemma byte_val_bit: "bit (byte_val c) n \<longleftrightarrow> n < 8 \<and> bit (of_char c :: nat) n"
proof -
  have "bit (byte_val c) n \<longleftrightarrow> n < 32 \<and> bit (take_bit 8 (of_char c :: nat)) n"
    unfolding byte_val_def of_char_take_bit by (simp add: bit_simps)
  then show ?thesis by (auto simp: bit_simps)
qed

lemma unat_byte_val: "unat (byte_val c) = of_char c"
proof -
  have "(of_char c :: nat) mod 4294967296 = of_char c"
    by (rule mod_less) (use of_char_less_256[of c] in linarith)
  then show ?thesis by (simp add: byte_val_def unat_of_nat)
qed

lemma mask_0x3f: "(0x3f :: uint) = mask 6"
  by (simp add: mask_eq_exp_minus_1)

lemma mask_0xff: "(0xff :: uint) = mask 8"
  by (simp add: mask_eq_exp_minus_1)

text \<open>Two 32-bit words are equal when their 32 bits are: the bits are then compared one by one.\<close>

lemma uint_eqI: "list_all (\<lambda>n. bit x n = bit y n) [0..<32] \<Longrightarrow> x = (y::uint)"
  by (rule bit_word_eqI) (simp add: list_all_iff)

lemmas bitwise = upt_rec bit_simps byte_val_bit mask_0x3f mask_0xff

lemma unat_sextet: "unat (x AND 0x3f :: uint) < 64"
proof -
  have "unat (x AND mask 6) = take_bit 6 (unat x)"
    by (simp add: unsigned_take_bit_eq flip: take_bit_eq_mask)
  moreover have "take_bit 6 (unat x) < 2 ^ 6"
    by (rule take_bit_nat_less_exp)
  ultimately show ?thesis by (simp add: mask_0x3f)
qed

lemma top_sextet3: "drop_bit 18 (chunk_of3 a b c) = drop_bit 18 (chunk_of3 a b c) AND 0x3f"
  by (rule uint_eqI; simp add: bitwise chunk_of3_def; simp add: eval_nat_numeral)

lemma top_sextet2: "drop_bit 10 (chunk_of2 a b) = drop_bit 10 (chunk_of2 a b) AND 0x3f"
  by (rule uint_eqI; simp add: bitwise chunk_of2_def; simp add: eval_nat_numeral)

lemma top_sextet1: "drop_bit 2 (byte_val a) = drop_bit 2 (byte_val a) AND 0x3f"
  by (rule uint_eqI; simp add: bitwise; simp add: eval_nat_numeral)

lemma reassemble3:
  "push_bit 18 (drop_bit 18 (chunk_of3 a b c))
   OR push_bit 12 (drop_bit 12 (chunk_of3 a b c) AND 0x3f)
   OR push_bit 6 (drop_bit 6 (chunk_of3 a b c) AND 0x3f)
   OR (chunk_of3 a b c AND 0x3f) = chunk_of3 a b c"
  by (rule uint_eqI; simp add: bitwise chunk_of3_def; simp add: eval_nat_numeral)

lemma reassemble2:
  "push_bit 12 (drop_bit 10 (chunk_of2 a b))
   OR push_bit 6 (drop_bit 4 (chunk_of2 a b) AND 0x3f)
   OR (push_bit 2 (chunk_of2 a b) AND 0x3f) = push_bit 2 (chunk_of2 a b)"
  by (rule uint_eqI; simp add: bitwise chunk_of2_def; simp add: eval_nat_numeral)

lemma reassemble1:
  "push_bit 6 (drop_bit 2 (byte_val a)) OR (push_bit 4 (byte_val a) AND 0x3f)
   = push_bit 4 (byte_val a)"
  by (rule uint_eqI; simp add: bitwise; simp add: eval_nat_numeral)

lemma bytes3:
  "drop_bit 16 (chunk_of3 a b c) AND 0xff = byte_val a"
  "drop_bit 8 (chunk_of3 a b c) AND 0xff = byte_val b"
  "drop_bit 0 (chunk_of3 a b c) AND 0xff = byte_val c"
  by (rule uint_eqI; simp add: bitwise chunk_of3_def; simp add: eval_nat_numeral)+

lemma bytes2:
  "drop_bit 10 (push_bit 2 (chunk_of2 a b)) AND 0xff = byte_val a"
  "drop_bit 2 (push_bit 2 (chunk_of2 a b)) AND 0xff = byte_val b"
  by (rule uint_eqI; simp add: bitwise chunk_of2_def; simp add: eval_nat_numeral)+

lemma bytes1:
  "drop_bit 4 (push_bit 4 (byte_val a)) AND 0xff = byte_val a"
  by (rule uint_eqI; simp add: bitwise; simp add: eval_nat_numeral)

lemma byte_of_byte_val: "drop_bit n chunk AND 0xff = byte_val c \<Longrightarrow> byte_of chunk n = c"
  by (simp add: byte_of_def unat_byte_val)

section \<open>The 32-bit counter of the encoder\<close>

text \<open>
  The loop of the encoder ends only when its 32-bit counter has reached \<open>len\<close>: it
  returns for no \<open>len\<close> from \<open>2 ^ 32\<close> on.
\<close>

lemma encode_loop_Some_small:
  assumes "encode_loop base64_chars bytes_to_encode len pos ret = Some y"
  shows "len < 2 ^ 32"
proof (rule encode_loop.raw_induct [where P = "\<lambda>_ _ len _ _ _. len < 2 ^ 32", OF _ assms],
       goal_cases)
  case (1 f tab bytes len pos ret y)
  show ?case
  proof (cases "unat pos < len")
    case True
    with 1(2) show ?thesis by (auto simp: Let_def dest: 1(1))
  next
    case False
    moreover have "unat pos < 2 ^ 32"
      using unsigned_less [of pos] by simp
    ultimately show ?thesis by simp
  qed
qed

lemma encode_loop_diverges:
  "2 ^ 32 \<le> len \<Longrightarrow> encode_loop base64_chars bytes_to_encode len pos ret = None"
  using encode_loop_Some_small [of base64_chars bytes_to_encode len pos ret]
  by (cases "encode_loop base64_chars bytes_to_encode len pos ret") auto

lemma base64_encode_diverges:
  "2 ^ 32 \<le> length bytes_to_encode - length bytes_to_encode mod 3 \<Longrightarrow>
   base64_encode bytes_to_encode url = None"
  by (simp add: base64_encode_def Let_def encode_loop_diverges)

section \<open>The encoder below \<open>2 ^ 32\<close> bytes\<close>

text \<open>
  Below \<open>2 ^ 32\<close> the counter does not wrap, the loop writes the groups of \<open>enc_groups\<close>
  and ends at \<open>len\<close>. Up to \<open>2 ^ 32\<close> bytes the encoder is the list function \<open>enc\<close>.
\<close>

lemma unat_plus_small:
  "unat pos + n < 2 ^ 32 \<Longrightarrow> unat (pos + of_nat n :: uint) = unat pos + n"
proof -
  assume a: "unat pos + n < 2 ^ 32"
  then have "unat (of_nat n :: uint) = n"
    by (simp add: unat_of_nat)
  with a show ?thesis
    using unat_add_lem [of pos "of_nat n"] by simp
qed

lemma unat_plus_123:
  "unat pos + 3 < 2 ^ 32 \<Longrightarrow> unat (pos + 1 :: uint) = unat pos + 1"
  "unat pos + 3 < 2 ^ 32 \<Longrightarrow> unat (pos + 2 :: uint) = unat pos + 2"
  "unat pos + 3 < 2 ^ 32 \<Longrightarrow> unat (pos + 3 :: uint) = unat pos + 3"
  using unat_plus_small [of pos 1] unat_plus_small [of pos 2] unat_plus_small [of pos 3]
  by simp_all

lemma drop_three:
  "p + 3 \<le> length xs \<Longrightarrow> drop p xs = xs ! p # xs ! (p + 1) # xs ! (p + 2) # drop (p + 3) xs"
  by (simp add: Cons_nth_drop_Suc numeral_3_eq_3)

lemma encode_loop_groups:
  "unat pos + 3 * k = len \<Longrightarrow> len \<le> length bytes \<Longrightarrow> len < 2 ^ 32 \<Longrightarrow>
   encode_loop tab bytes len pos ret =
     Some (of_nat len, ret @ enc_groups tab (take (3 * k) (drop (unat pos) bytes)))"
proof (induction k arbitrary: pos ret)
  case 0
  then have "of_nat len = pos" by auto
  with 0 show ?case by (subst encode_loop.simps) simp
next
  case (Suc k)
  let ?p = "unat pos"
  let ?a = "bytes ! ?p" and ?b = "bytes ! (?p + 1)" and ?c = "bytes ! (?p + 2)"
  from Suc.prems have lt: "?p < len" and le: "?p + 3 \<le> length bytes" and small: "?p + 3 < 2 ^ 32"
    by simp_all
  note u = unat_plus_123 [OF small]
  have next_pos: "unat (pos + 3) + 3 * k = len"
    using Suc.prems(1) by (simp add: u)
  have "encode_loop tab bytes len pos ret =
        encode_loop tab bytes len (pos + 3) (ret @ enc3 tab ?a ?b ?c)"
    using lt by (subst encode_loop.simps) (simp add: u Let_def enc3_def chunk_of3_def)
  also have "\<dots> = Some (of_nat len,
      (ret @ enc3 tab ?a ?b ?c) @ enc_groups tab (take (3 * k) (drop (?p + 3) bytes)))"
    using Suc.IH [OF next_pos Suc.prems(2,3)] by (simp add: u)
  also have "(ret @ enc3 tab ?a ?b ?c) @ enc_groups tab (take (3 * k) (drop (?p + 3) bytes))
      = ret @ enc_groups tab (take (3 * Suc k) (drop ?p bytes))"
    by (subst drop_three [OF le]) (simp add: numeral_3_eq_3)
  finally show ?case .
qed

lemma enc_groups_append:
  "length xs mod 3 = 0 \<Longrightarrow> enc url (xs @ ys) = enc_groups (to_base64_chars url) xs @ enc url ys"
proof (induction "to_base64_chars url" xs rule: enc_groups.induct)
  case (1 a b c bytes)
  then show ?case by simp
qed auto

lemma drop_last_one: "Suc p = length xs \<Longrightarrow> drop p xs = [xs ! p]"
  using Cons_nth_drop_Suc [of p xs] by simp

lemma drop_last_two: "Suc (Suc p) = length xs \<Longrightarrow> drop p xs = [xs ! p, xs ! (p + 1)]"
  using Cons_nth_drop_Suc [of p xs] drop_last_one [of "Suc p" xs] by simp

lemma base64_encode_returns:
  assumes len: "len = length bytes - length bytes mod 3" and small: "len < 2 ^ 32"
  shows "base64_encode bytes url =
     Some (enc_groups (to_base64_chars url) (take len bytes) @
       (if length bytes mod 3 = 2
        then enc2 (to_base64_chars url) (trailing url) (bytes ! len)
               (bytes ! unat (of_nat len + 1 :: uint))
        else if length bytes mod 3 = 1
        then enc1 (to_base64_chars url) (trailing url) (bytes ! len)
        else []))"
proof -
  have "unat (0 :: uint) + 3 * (length bytes div 3) = len"
    unfolding len by (simp add: minus_mod_eq_mult_div)
  moreover have "len \<le> length bytes"
    unfolding len by simp
  ultimately have loop: "encode_loop (to_base64_chars url) bytes len 0 [] =
      Some (of_nat len, enc_groups (to_base64_chars url) (take len bytes))"
    using encode_loop_groups [of 0 "length bytes div 3" len bytes "to_base64_chars url" "[]"] small
    by simp
  have u: "unat (of_nat len :: uint) = len"
    using small by (simp add: unat_of_nat)
  show ?thesis
    unfolding base64_encode_def Let_def len [symmetric]
    by (simp add: loop u enc1_def enc2_def chunk_of2_def trailing_def)
qed

lemma base64_encode_unfold:
  "base64_encode bytes url =
    (if 2 ^ 32 \<le> length bytes - length bytes mod 3 then None
     else Some (enc_groups (to_base64_chars url) (take (length bytes - length bytes mod 3) bytes) @
       (if length bytes mod 3 = 2
        then enc2 (to_base64_chars url) (trailing url) (bytes ! (length bytes - length bytes mod 3))
               (bytes ! unat (of_nat (length bytes - length bytes mod 3) + 1 :: uint))
        else if length bytes mod 3 = 1
        then enc1 (to_base64_chars url) (trailing url) (bytes ! (length bytes - length bytes mod 3))
        else [])))"
proof (cases "2 ^ 32 \<le> length bytes - length bytes mod 3")
  case True
  then show ?thesis
    using base64_encode_diverges [of bytes url] by simp
next
  case False
  then have "length bytes - length bytes mod 3 < 2 ^ 32" by simp
  from base64_encode_returns [OF refl this] False show ?thesis by simp
qed

lemma base64_encode_enc:
  assumes "length bytes \<le> 2 ^ 32"
  shows "base64_encode bytes url = Some (enc url bytes)"
proof -
  define len where "len = length bytes - length bytes mod 3"
  have len3: "len mod 3 = 0"
    unfolding len_def by (simp add: minus_mod_eq_mult_div)
  have n: "length bytes \<le> 4294967296"
    using assms by simp
  have "len < 4294967296"
    using n len3 unfolding len_def by presburger
  then have small: "len < 2 ^ 32" by simp
  have "len \<le> length bytes"
    unfolding len_def by simp
  then have "length (take len bytes) mod 3 = 0"
    using len3 by (simp add: min_absorb2)
  from enc_groups_append [OF this, of url "drop len bytes"]
  have split: "enc url bytes =
      enc_groups (to_base64_chars url) (take len bytes) @ enc url (drop len bytes)"
    by simp
  note ret = base64_encode_returns [OF len_def small, of url]
  consider "length bytes mod 3 = 0" | "length bytes mod 3 = 1" | "length bytes mod 3 = 2"
    by linarith
  then show ?thesis
  proof cases
    case 1
    then have "drop len bytes = []"
      by (simp add: len_def)
    with 1 show ?thesis
      by (simp add: ret split)
  next
    case 2
    then have "Suc len = length bytes"
      unfolding len_def by presburger
    then have "drop len bytes = [bytes ! len]"
      by (rule drop_last_one)
    with 2 show ?thesis
      by (simp add: ret split)
  next
    case 3
    then have l: "Suc (Suc len) = length bytes"
      unfolding len_def by presburger
    then have d: "drop len bytes = [bytes ! len, bytes ! (len + 1)]"
      by (rule drop_last_two)
    have "unat (of_nat len :: uint) = len"
      using small by (simp add: unat_of_nat)
    moreover have "len + 1 < 2 ^ 32"
      using l n by simp
    ultimately have "unat (of_nat len + 1 :: uint) = len + 1"
      using unat_plus_small [of "of_nat len" 1] by simp
    with 3 d show ?thesis
      by (simp add: ret split)
  qed
qed

section \<open>The alphabets and the reverse table\<close>

lemma length_to_base64_chars: "length (to_base64_chars url) = 64"
  by (simp add: to_base64_chars_def)

lemma table_inverts_alphabet:
  "list_all (\<lambda>k. from_base64_chars ! of_char (to_base64_chars url ! k) = k) [0..<64]"
  by (cases url) (simp_all add: to_base64_chars_def from_base64_chars_def upt_rec)

lemma alphabet_plain:
  "list_all (\<lambda>chr. \<not> is_pad chr \<and> chr \<noteq> CHR 0x0A) (to_base64_chars url)"
  by (simp add: to_base64_chars_def is_pad_def)

lemma pos_of_char_sextet:
  assumes "unat s < 64"
  shows "pos_of_char (to_base64_chars url ! unat s) = Inr s"
proof -
  have "from_base64_chars ! of_char (to_base64_chars url ! unat s) = unat s"
    using table_inverts_alphabet [of url] assms by (simp add: list_all_iff)
  with assms show ?thesis
    by (simp add: pos_of_char_def)
qed

lemma sextet_plain:
  assumes "unat s < 64"
  shows "\<not> is_pad (to_base64_chars url ! unat s)" "to_base64_chars url ! unat s \<noteq> CHR 0x0A"
  using alphabet_plain [of url] assms
  by (simp_all add: list_all_length length_to_base64_chars)

lemma unat_top_sextet:
  "unat (drop_bit 18 (chunk_of3 a b c)) < 64"
  "unat (drop_bit 10 (chunk_of2 a b)) < 64"
  "unat (drop_bit 2 (byte_val a)) < 64"
  by (subst top_sextet3 top_sextet2 top_sextet1, rule unat_sextet)+

lemmas sextet_bounds = unat_top_sextet unat_sextet

section \<open>Decoding quad by quad\<close>

text \<open>
  The decoder reads its text by position. On a text of at least two quads it does with
  the first quad what its loop does, and with the rest what it does with the rest alone.
\<close>

lemma string_at_shift: "string_at (x @ s) (length x + pos + i) = string_at s (pos + i)"
  by (simp add: string_at_def nth_append)

lemma pos_at_shift: "pos_at (x @ s) (length x + pos + i) = pos_at s (pos + i)"
  by (simp add: pos_at_def string_at_shift)

lemma chunk_shift:
  "chunk2 (x @ s) (length x + pos) = chunk2 s pos"
  "chunk3 (x @ s) (length x + pos) = chunk3 s pos"
  "chunk4 (x @ s) (length x + pos) = chunk4 s pos"
  unfolding chunk2_def chunk3_def chunk4_def pos_at_shift by (rule refl)+

lemma decode_tail_shift:
  "decode_tail (x @ s) (length x + pos) (pre @ ret) =
     (case decode_tail s pos ret of Inl e \<Rightarrow> Inl e | Inr r \<Rightarrow> Inr (pre @ r))"
  unfolding decode_tail_def chunk_shift string_at_shift
  by (simp split: sum.splits)

lemma decode_loop_shift:
  "decode_loop (x @ s) (length x + len) (length x + pos) (pre @ ret) =
     (case decode_loop s len pos ret of
        Inl e \<Rightarrow> Inl e
      | Inr (p, r) \<Rightarrow> Inr (length x + p, pre @ r))"
proof (induction s len pos ret rule: decode_loop.induct)
  case (1 s len pos ret)
  show ?case
  proof (cases "pos < len")
    case False
    then show ?thesis
      by (simp add: decode_loop.simps [of "x @ s"] decode_loop.simps [of s])
  next
    case True
    show ?thesis
    proof (cases "chunk4 s pos")
      case (Inl e)
      with True show ?thesis
        by (simp add: decode_loop.simps [of "x @ s"] decode_loop.simps [of s len pos] chunk_shift)
    next
      case (Inr chunk)
      from "1.IH" [OF True Inr] True Inr show ?thesis
        by (simp add: decode_loop.simps [of "x @ s" _ "length x + pos"]
              decode_loop.simps [of s len pos] chunk_shift add.assoc)
    qed
  qed
qed

lemma chunk4_first:
  "chunk4 (a # b # c # d # s) 0 = chunk4 [a, b, c, d] 0"
  by (simp add: chunk4_def pos_at_def string_at_def cong: sum.case_cong)

lemma decode_single:
  "decode [a, b, c, d] False = decode_tail [a, b, c, d] 0 []"
  by (simp add: decode.simps decode_loop.simps)

lemma length4: "length [a, b, c, d] = 4"
  by simp

lemma decode_plain:
  "4 \<le> length s \<Longrightarrow> decode s False =
     (case decode_loop s (length s - 4) 0 [] of
        Inl e \<Rightarrow> Inl e
      | Inr (pos, ret) \<Rightarrow> decode_tail s pos ret)"
  by (auto simp: decode.simps)

lemma decode_loop_first:
  assumes "4 \<le> length s"
  shows "decode_loop (a # b # c # d # s) (length s) 0 [] =
    (case chunk4 [a, b, c, d] 0 of
       Inl e \<Rightarrow> Inl e
     | Inr chunk \<Rightarrow>
         (case decode_loop s (length s - 4) 0 [] of
            Inl e \<Rightarrow> Inl e
          | Inr (p, r) \<Rightarrow> Inr (4 + p, [byte_of chunk 16, byte_of chunk 8, byte_of chunk 0] @ r)))"
proof (cases "chunk4 [a, b, c, d] 0")
  case (Inl e)
  with assms show ?thesis
    by (subst decode_loop.simps) (auto simp add: chunk4_first [of a b c d s])
next
  case (Inr chunk)
  let ?q = "[a, b, c, d]" and ?bs = "[byte_of chunk 16, byte_of chunk 8, byte_of chunk 0]"
  have "decode_loop (?q @ s) (length s) 0 [] = decode_loop (?q @ s) (length s) (0 + 4) ([] @ ?bs)"
    using assms Inr by (subst decode_loop.simps) (auto simp add: chunk4_first [of a b c d s])
  also have "\<dots> = decode_loop (?q @ s) (4 + (length s - 4)) (4 + 0) (?bs @ [])"
    using assms by simp
  also have "\<dots> = (case decode_loop s (length s - 4) 0 [] of
        Inl e \<Rightarrow> Inl e
      | Inr (p, r) \<Rightarrow> Inr (4 + p, ?bs @ r))"
    using decode_loop_shift [of ?q s "length s - 4" 0 ?bs "[]"] by (simp only: length4)
  finally show ?thesis
    using Inr by simp
qed

lemma decode_tail_shift4:
  "decode_tail (a # b # c # d # s) (4 + p) (pre @ r) =
     (case decode_tail s p r of Inl e \<Rightarrow> Inl e | Inr r' \<Rightarrow> Inr (pre @ r'))"
  using decode_tail_shift [of "[a, b, c, d]" s p pre r] by (simp only: length4 append_Cons append_Nil)

lemma decode_Cons4:
  assumes "4 \<le> length s"
  shows "decode (a # b # c # d # s) False =
    (case chunk4 [a, b, c, d] 0 of
       Inl e \<Rightarrow> Inl e
     | Inr chunk \<Rightarrow>
         (case decode s False of
            Inl e \<Rightarrow> Inl e
          | Inr r \<Rightarrow> Inr ([byte_of chunk 16, byte_of chunk 8, byte_of chunk 0] @ r)))"
proof -
  have whole: "decode (a # b # c # d # s) False =
      (case decode_loop (a # b # c # d # s) (length s) 0 [] of
        Inl e \<Rightarrow> Inl e
      | Inr (pos, ret) \<Rightarrow> decode_tail (a # b # c # d # s) pos ret)"
    using decode_plain [of "a # b # c # d # s"] by simp
  show ?thesis
  proof (cases "chunk4 [a, b, c, d] 0")
    case (Inl e)
    then show ?thesis
      unfolding whole decode_loop_first [OF assms] by simp
  next
    case (Inr chunk)
    note quad = this
    show ?thesis
    proof (cases "decode_loop s (length s - 4) 0 []")
      case (Inl e)
      with quad show ?thesis
        unfolding whole decode_loop_first [OF assms] decode_plain [OF assms] by simp
    next
      case (Inr pr)
      then obtain p r where "decode_loop s (length s - 4) 0 [] = Inr (p, r)"
        by (cases pr) simp
      with quad show ?thesis
        unfolding whole decode_loop_first [OF assms] decode_plain [OF assms]
        using decode_tail_shift4
          [of a b c d s p "[byte_of chunk 16, byte_of chunk 8, byte_of chunk 0]" r]
        by simp
    qed
  qed
qed

section \<open>Round trip of one group\<close>

lemma is_pad_trailing: "is_pad (trailing url)"
  by (simp add: is_pad_def trailing_def)

lemma chunk4_enc3:
  "chunk4 (enc3 (to_base64_chars url) a b c) 0 = Inr (chunk_of3 a b c)"
proof -
  have "chunk4 (enc3 (to_base64_chars url) a b c) 0 =
      Inr (push_bit 18 (drop_bit 18 (chunk_of3 a b c))
           OR push_bit 12 (drop_bit 12 (chunk_of3 a b c) AND 0x3f)
           OR push_bit 6 (drop_bit 6 (chunk_of3 a b c) AND 0x3f)
           OR (chunk_of3 a b c AND 0x3f))"
    by (simp add: chunk4_def enc3_def pos_at_def string_at_def pos_of_char_sextet sextet_bounds)
  then show ?thesis
    by (simp only: reassemble3)
qed

lemma decode_tail_enc3:
  "decode_tail (enc3 (to_base64_chars url) a b c) 0 ret = Inr (ret @ [a, b, c])"
proof -
  have "string_at (enc3 (to_base64_chars url) a b c) (0 + 2)
      = Inr (to_base64_chars url ! unat (drop_bit 6 (chunk_of3 a b c) AND 0x3f))"
    and "string_at (enc3 (to_base64_chars url) a b c) (0 + 3)
      = Inr (to_base64_chars url ! unat (chunk_of3 a b c AND 0x3f))"
    by (simp_all add: enc3_def string_at_def)
  then show ?thesis
    by (simp add: decode_tail_def chunk4_enc3 sextet_plain sextet_bounds
          byte_of_byte_val [OF bytes3(1)] byte_of_byte_val [OF bytes3(2)]
          byte_of_byte_val [OF bytes3(3)])
qed

lemma chunk3_enc2:
  "chunk3 (enc2 (to_base64_chars url) t a b) 0 = Inr (push_bit 2 (chunk_of2 a b))"
proof -
  have "chunk3 (enc2 (to_base64_chars url) t a b) 0 =
      Inr (push_bit 12 (drop_bit 10 (chunk_of2 a b))
           OR push_bit 6 (drop_bit 4 (chunk_of2 a b) AND 0x3f)
           OR (push_bit 2 (chunk_of2 a b) AND 0x3f))"
    by (simp add: chunk3_def enc2_def pos_at_def string_at_def pos_of_char_sextet sextet_bounds)
  then show ?thesis
    by (simp only: reassemble2)
qed

lemma decode_tail_enc2:
  "decode_tail (enc2 (to_base64_chars url) (trailing url') a b) 0 ret = Inr (ret @ [a, b])"
proof -
  have "string_at (enc2 (to_base64_chars url) (trailing url') a b) (0 + 2)
      = Inr (to_base64_chars url ! unat (push_bit 2 (chunk_of2 a b) AND 0x3f))"
    and "string_at (enc2 (to_base64_chars url) (trailing url') a b) (0 + 3) = Inr (trailing url')"
    by (simp_all add: enc2_def string_at_def)
  then show ?thesis
    by (simp add: decode_tail_def chunk3_enc2 sextet_plain sextet_bounds is_pad_trailing
          byte_of_byte_val [OF bytes2(1)] byte_of_byte_val [OF bytes2(2)])
qed

lemma chunk2_enc1:
  "chunk2 (enc1 (to_base64_chars url) t a) 0 = Inr (push_bit 4 (byte_val a))"
proof -
  have "chunk2 (enc1 (to_base64_chars url) t a) 0 =
      Inr (push_bit 6 (drop_bit 2 (byte_val a)) OR (push_bit 4 (byte_val a) AND 0x3f))"
    by (simp add: chunk2_def enc1_def pos_at_def string_at_def pos_of_char_sextet sextet_bounds)
  then show ?thesis
    by (simp only: reassemble1)
qed

lemma decode_tail_enc1:
  "decode_tail (enc1 (to_base64_chars url) (trailing url') a) 0 ret = Inr (ret @ [a])"
proof -
  have "string_at (enc1 (to_base64_chars url) (trailing url') a) (0 + 2) = Inr (trailing url')"
    by (simp add: enc1_def string_at_def)
  then show ?thesis
    by (simp add: decode_tail_def chunk2_enc1 is_pad_trailing byte_of_byte_val [OF bytes1])
qed

section \<open>The encoding as a list function\<close>

lemma length_enc3: "length (enc3 tab a b c) = 4"
  by (simp add: enc3_def)

lemma length_enc: "length (enc url bytes) = (length bytes + 2) div 3 * 4"
proof (induction url bytes rule: enc.induct)
  case (4 url a b c bytes)
  have "(length (a # b # c # bytes) + 2) div 3 = (length bytes + 2) div 3 + 1"
    by simp
  with 4 show ?case
    by (simp add: length_enc3)
qed (simp_all add: enc1_def enc2_def)

lemma enc_Nil_iff: "enc url bytes = [] \<longleftrightarrow> bytes = []"
  by (induction url bytes rule: enc.induct) (simp_all add: enc1_def enc2_def enc3_def)

lemma decode_enc: "decode (enc url bytes) False = Inr bytes"
proof (induction url bytes rule: enc.induct)
  case (1 url)
  show ?case by (simp add: decode.simps)
next
  case (2 url a)
  have "decode (enc1 (to_base64_chars url) (trailing url) a) False =
      decode_tail (enc1 (to_base64_chars url) (trailing url) a) 0 []"
    unfolding enc1_def by (rule decode_single)
  then show ?case by (simp add: decode_tail_enc1)
next
  case (3 url a b)
  have "decode (enc2 (to_base64_chars url) (trailing url) a b) False =
      decode_tail (enc2 (to_base64_chars url) (trailing url) a b) 0 []"
    unfolding enc2_def by (rule decode_single)
  then show ?case by (simp add: decode_tail_enc2)
next
  case (4 url a b c bytes)
  obtain w x y z where q: "enc3 (to_base64_chars url) a b c = [w, x, y, z]"
    by (simp add: enc3_def)
  show ?case
  proof (cases "bytes = []")
    case True
    have "decode (enc3 (to_base64_chars url) a b c) False =
        decode_tail (enc3 (to_base64_chars url) a b c) 0 []"
      unfolding q by (rule decode_single)
    with True show ?thesis by (simp add: decode_tail_enc3)
  next
    case False
    then have "4 \<le> length (enc url bytes)"
      unfolding length_enc by (cases bytes) simp_all
    from decode_Cons4 [OF this, of w x y z] chunk4_enc3 [of url a b c] "4.IH"
    show ?thesis
      by (simp add: q byte_of_byte_val [OF bytes3(1)] byte_of_byte_val [OF bytes3(2)]
            byte_of_byte_val [OF bytes3(3)])
  qed
qed

section \<open>Line wrapping\<close>

text \<open>For a positive distance the loop of \<^verbatim>\<open>insert_linebreaks\<close> ends, with \<open>wrap\<close>.\<close>

lemma wrap_short: "\<not> (0 < d \<and> d < length s) \<Longrightarrow> wrap d s = s"
  by (subst wrap.simps) auto

lemma wrap_long:
  "0 < d \<Longrightarrow> d < length s \<Longrightarrow> wrap d s = take d s @ [CHR 0x0A] @ wrap d (drop d s)"
  by (subst wrap.simps) simp


lemma insert_loop_wrap:
  "0 < d \<Longrightarrow> insert_loop d (length done + d) (done @ rest) = Some (done @ wrap d rest)"
proof (induction d rest arbitrary: "done" rule: wrap.induct)
  case (1 d rest)
  show ?case
  proof (cases "d < length rest")
    case False
    then show ?thesis
      by (subst insert_loop.simps) (simp add: wrap_short)
  next
    case True
    let ?done = "done @ take d rest @ [CHR 0x0A]"
    have "insert_loop d (length done + d) (done @ rest) =
        insert_loop d (length ?done + d) (?done @ drop d rest)"
      using True by (subst insert_loop.simps) (simp add: min_absorb2 add.commute add.left_commute)
    also have "\<dots> = Some (?done @ wrap d (drop d rest))"
      using "1.IH" [of ?done] "1.prems" True by simp
    also have "?done @ wrap d (drop d rest) = done @ wrap d rest"
      using "1.prems" True by (simp add: wrap_long [of d rest])
    finally show ?thesis .
  qed
qed

lemma insert_linebreaks_wrap:
  "0 < distance \<Longrightarrow> insert_linebreaks str distance = Some (wrap distance str)"
  using insert_loop_wrap [of distance "[]" str]
  by (simp add: insert_linebreaks_def wrap_short)

lemma filter_wrap:
  "filter (\<lambda>chr. chr \<noteq> CHR 0x0A) (wrap d s) = filter (\<lambda>chr. chr \<noteq> CHR 0x0A) s"
proof (induction d s rule: wrap.induct)
  case (1 d s)
  show ?case
  proof (cases "0 < d \<and> d < length s")
    case True
    then have "filter (\<lambda>chr. chr \<noteq> CHR 0x0A) (wrap d s) =
        filter (\<lambda>chr. chr \<noteq> CHR 0x0A) (take d s) @ filter (\<lambda>chr. chr \<noteq> CHR 0x0A) (drop d s)"
      using "1.IH" by (simp add: wrap_long [of d s])
    then show ?thesis
      by (simp flip: filter_append)
  next
    case False
    then show ?thesis by (simp add: wrap_short)
  qed
qed



section \<open>The characters of an encoding\<close>

lemma plain_sextet: "unat s < 64 \<Longrightarrow> plain (to_base64_chars url ! unat s)"
  by (simp add: plain_def sextet_plain)

lemma plain_enc3: "list_all plain (enc3 (to_base64_chars url) a b c)"
  by (simp add: enc3_def plain_sextet sextet_bounds)





lemma no_newline_plain: "list_all plain s \<Longrightarrow> CHR 0x0A \<notin> set s"
  by (auto simp: list_all_iff plain_def)


section \<open>Padding\<close>




section \<open>Wrapped encodings\<close>






section \<open>Round trips\<close>

lemma encode_length_below_4GiB:
  "length bytes \<le> 2 ^ 32 \<Longrightarrow>
   \<exists>e. base64_encode bytes url = Some e \<and> length e = (length bytes + 2) div 3 * 4"
  by (simp add: base64_encode_enc length_enc)

lemma roundtrip_below_4GiB:
  "length bytes \<le> 2 ^ 32 \<Longrightarrow>
   \<exists>e. base64_encode bytes url = Some e \<and> decode e False = Inr bytes"
  by (simp add: base64_encode_enc decode_enc)

lemma decode_strip:
  "decode encoded_string True = decode (filter (\<lambda>chr. chr \<noteq> CHR 0x0A) encoded_string) False"
  by (simp add: decode.simps)

lemma newline_not_sextet:
  "unat s < 64 \<Longrightarrow> CHR 0x0A \<noteq> to_base64_chars url ! unat s"
  by (rule not_sym) (rule sextet_plain(2))

lemma no_newline_enc: "CHR 0x0A \<notin> set (enc url bytes)"
proof (induction url bytes rule: enc.induct)
  case (4 url a b c bytes)
  have "CHR 0x0A \<notin> set (enc3 (to_base64_chars url) a b c)"
    by (rule no_newline_plain) (rule plain_enc3)
  with 4 show ?case by simp
qed (simp_all add: enc1_def enc2_def trailing_def newline_not_sextet sextet_bounds)

lemma decode_wrap_enc: "decode (wrap d (enc url bytes)) True = Inr bytes"
proof -
  have "filter (\<lambda>chr. chr \<noteq> CHR 0x0A) (wrap d (enc url bytes)) = enc url bytes"
    using no_newline_enc [of url bytes] by (auto simp: filter_wrap filter_id_conv)
  then show ?thesis
    by (simp only: decode_strip decode_enc)
qed

lemma mime_roundtrip_below_4GiB:
  "length bytes \<le> 2 ^ 32 \<Longrightarrow>
   \<exists>w. encode_mime bytes = Some w \<and> decode w True = Inr bytes"
  by (simp add: encode_mime_def encode_with_line_breaks_def base64_encode_enc
        insert_linebreaks_wrap decode_wrap_enc)

section \<open>When the decoder fails\<close>

lemma alphabet_in_table:
  "list_all (\<lambda>chr. from_base64_chars ! of_char chr \<noteq> 64) (to_base64_chars url)"
  by (cases url) (simp_all add: to_base64_chars_def from_base64_chars_def)
















section \<open>Inputs of 4 GiB and more\<close>

lemma base64_encode_None_iff:
  "base64_encode bytes_to_encode url = None \<longleftrightarrow> 2 ^ 32 + 2 \<le> length bytes_to_encode"
proof -
  have "4294967296 \<le> length bytes_to_encode - length bytes_to_encode mod 3 \<longleftrightarrow>
      4294967298 \<le> length bytes_to_encode"
    by presburger
  then show ?thesis
    by (simp add: base64_encode_unfold)
qed

text \<open>
  With \<open>2 ^ 32 + 1\<close> bytes the loop stops at \<open>pos = 2 ^ 32 - 1\<close>, two bytes are left, and
  the index \<open>pos + 1\<close> of the second one wraps to 0: the first byte is encoded in the
  place of the last.
\<close>

lemma encode_index_wraps:
  assumes n: "length bytes = 4294967297"
  shows "base64_encode bytes url = Some (enc url (take 4294967296 bytes @ [bytes ! 0]))"
proof -
  let ?len = "4294967295 :: nat"
  have len: "?len = length bytes - length bytes mod 3" and small: "?len < 2 ^ 32"
    by (simp_all add: n)
  have "base64_encode bytes url =
      Some (enc_groups (to_base64_chars url) (take ?len bytes) @
            enc2 (to_base64_chars url) (trailing url) (bytes ! ?len) (bytes ! 0))"
    using base64_encode_returns [OF len small, of url] by (simp add: n)
  moreover have "take 4294967296 bytes = take ?len bytes @ [bytes ! ?len]"
    using take_Suc_conv_app_nth [of ?len bytes] by (simp add: n)
  moreover have "length (take ?len bytes) mod 3 = 0"
    by (simp add: n)
  ultimately show ?thesis
    using enc_groups_append [of "take ?len bytes" url "[bytes ! ?len, bytes ! 0]"]
    by simp
qed

section \<open>Results\<close>

text \<open>
  C1. For every input of at most \<open>2 ^ 32\<close> bytes the text of the encoder decodes to the
  input (lemma \<open>roundtrip_below_4GiB\<close>). Beyond, it does not: the counter \<open>pos\<close> of the
  encoder is an \<^verbatim>\<open>unsigned int\<close> (line 144; the counter of \<^verbatim>\<open>decode\<close> is a \<^verbatim>\<open>size_t\<close>,
  line 198), and on \<open>2 ^ 32 + 1\<close> bytes the index \<^verbatim>\<open>pos + 1\<close> of the last byte (line 159)
  wraps to 0. The input here is \<open>2 ^ 32\<close> bytes 0 followed by one byte 1: the encoder
  returns a text, and the text decodes to \<open>2 ^ 32 + 1\<close> bytes 0, which is not the input.
\<close>

theorem roundtrip_fails_beyond_4GiB:
  "\<exists>e. base64_encode (replicate 4294967296 (CHR 0x00) @ [CHR 0x01]) url = Some e \<and>
       decode e False = Inr (replicate 4294967296 (CHR 0x00) @ [CHR 0x00]) \<and>
       decode e False \<noteq> Inr (replicate 4294967296 (CHR 0x00) @ [CHR 0x01])"
proof (intro exI conjI)
  show "base64_encode (replicate 4294967296 (CHR 0x00) @ [CHR 0x01]) url =
      Some (enc url (replicate 4294967296 (CHR 0x00) @ [CHR 0x00]))"
    using encode_index_wraps [of "replicate 4294967296 (CHR 0x00) @ [CHR 0x01]" url]
    by (simp add: nth_append)
  show "decode (enc url (replicate 4294967296 (CHR 0x00) @ [CHR 0x00])) False =
      Inr (replicate 4294967296 (CHR 0x00) @ [CHR 0x00])"
    by (rule decode_enc)
  show "decode (enc url (replicate 4294967296 (CHR 0x00) @ [CHR 0x00])) False \<noteq>
      Inr (replicate 4294967296 (CHR 0x00) @ [CHR 0x01])"
    by (simp only: decode_enc sum.inject same_append_eq) simp
qed







text \<open>
  C4. For every input of at most \<open>2 ^ 32\<close> bytes the encoder returns a text of exactly
  \<open>ceil(n / 3) * 4\<close> symbols (lemma \<open>encode_length_below_4GiB\<close>). The loop counter
  \<^verbatim>\<open>unsigned int pos\<close> (line 144) has 32 bits and the length \<^verbatim>\<open>size_t len\<close> that it is
  compared with (line 147) has 64; the counter of \<^verbatim>\<open>decode\<close> is a \<^verbatim>\<open>size_t\<close> (line 198).
  From \<open>2 ^ 32\<close> bytes in full groups on, the counter wraps before it reaches the length
  and the loop never ends (lemma \<open>base64_encode_None_iff\<close>): on an input of \<open>2 ^ 32 + 2\<close>
  bytes, whatever the bytes and the alphabet, the encoder returns nothing, where C4
  promises a text of \<open>ceil(n / 3) * 4\<close> symbols for every input.
\<close>

theorem encode_4GiB_never_returns:
  "base64_encode (replicate 4294967298 c) url = None"
  by (rule base64_encode_diverges) simp





text \<open>
  C7. The second half holds as it is stated: with \<open>remove_linebreaks\<close> the decoder decodes
  the copy of its input without the line breaks (lemma \<open>decode_strip\<close>). The round trip
  through \<^verbatim>\<open>encode_mime\<close> holds for every input of at most \<open>2 ^ 32\<close> bytes (lemma
  \<open>mime_roundtrip_below_4GiB\<close>) and fails beyond, by the 32-bit counter of
  \<^verbatim>\<open>base64_encode\<close>: on \<open>2 ^ 32\<close> bytes 0 followed by one byte 1, \<^verbatim>\<open>encode_mime\<close> returns a
  text, and the text decodes to \<open>2 ^ 32 + 1\<close> bytes 0, which is not the input.
\<close>

theorem mime_roundtrip_fails_beyond_4GiB:
  "\<exists>w. encode_mime (replicate 4294967296 (CHR 0x00) @ [CHR 0x01]) = Some w \<and>
       decode w True = Inr (replicate 4294967296 (CHR 0x00) @ [CHR 0x00]) \<and>
       decode w True \<noteq> Inr (replicate 4294967296 (CHR 0x00) @ [CHR 0x01])"
proof (intro exI conjI)
  have "base64_encode (replicate 4294967296 (CHR 0x00) @ [CHR 0x01]) False =
      Some (enc False (replicate 4294967296 (CHR 0x00) @ [CHR 0x00]))"
    using encode_index_wraps [of "replicate 4294967296 (CHR 0x00) @ [CHR 0x01]" False]
    by (simp add: nth_append)
  then show "encode_mime (replicate 4294967296 (CHR 0x00) @ [CHR 0x01]) =
      Some (wrap 76 (enc False (replicate 4294967296 (CHR 0x00) @ [CHR 0x00])))"
    by (simp add: encode_mime_def encode_with_line_breaks_def insert_linebreaks_wrap)
  show "decode (wrap 76 (enc False (replicate 4294967296 (CHR 0x00) @ [CHR 0x00]))) True =
      Inr (replicate 4294967296 (CHR 0x00) @ [CHR 0x00])"
    by (rule decode_wrap_enc)
  show "decode (wrap 76 (enc False (replicate 4294967296 (CHR 0x00) @ [CHR 0x00]))) True \<noteq>
      Inr (replicate 4294967296 (CHR 0x00) @ [CHR 0x01])"
    by (simp only: decode_wrap_enc sum.inject same_append_eq) simp
qed

text \<open>
  C8. The empty input is a fixed point in both directions: the encoding of the empty byte
  sequence is the empty text for either alphabet, and the empty text decodes to the empty
  byte sequence without error, with or without line-break stripping.
\<close>

theorem empty_input_fixed_point:
  "base64_encode [] url = Some [] \<and> decode [] remove_linebreaks = Inr []"
  by (cases remove_linebreaks) (simp_all add: base64_encode_def encode_loop.simps decode.simps)

text \<open>
  C9. The test vectors: \<open>Man\<close>, \<open>Ma\<close> and \<open>M\<close> encode to \<open>TWFu\<close>, \<open>TWE=\<close> and \<open>TQ==\<close>,
  and \<open>TWFu\<close> decodes to \<open>Man\<close>. The bytes \<open>0xFB 0xEF 0xBE\<close> are four times the symbol 62:
  \<open>----\<close> in the url-safe alphabet, \<open>++++\<close> in the standard one; \<open>0xFB 0xFF 0xBF\<close> shows the
  symbol 63 as well. The url-safe alphabet has \<open>-\<close> and \<open>_\<close> at 62 and 63 and contains
  neither \<open>+\<close> nor \<open>/\<close>.
\<close>

theorem test_vectors:
  "base64_encode ''Man'' False = Some ''TWFu'' \<and>
   base64_encode ''Ma'' False = Some ''TWE='' \<and>
   base64_encode ''M'' False = Some ''TQ=='' \<and>
   decode ''TWFu'' False = Inr ''Man'' \<and>
   base64_encode [CHR 0xFB, CHR 0xEF, CHR 0xBE] True = Some ''----'' \<and>
   base64_encode [CHR 0xFB, CHR 0xEF, CHR 0xBE] False = Some ''++++'' \<and>
   base64_encode [CHR 0xFB, CHR 0xFF, CHR 0xBF] True = Some ''-_-_'' \<and>
   to_base64_chars True ! 62 = CHR ''-'' \<and> to_base64_chars True ! 63 = CHR ''_'' \<and>
   CHR ''+'' \<notin> set (to_base64_chars True) \<and> CHR ''/'' \<notin> set (to_base64_chars True)"
proof -
  have "base64_encode ''Man'' False = Some ''TWFu''" by (simp add: encode_eval)
  moreover have "base64_encode ''Ma'' False = Some ''TWE=''" by (simp add: encode_eval)
  moreover have "base64_encode ''M'' False = Some ''TQ==''" by (simp add: encode_eval)
  moreover have "decode ''TWFu'' False = Inr ''Man''" by (simp add: decode_eval)
  moreover have "base64_encode [CHR 0xFB, CHR 0xEF, CHR 0xBE] True = Some ''----''"
    by (simp add: encode_eval)
  moreover have "base64_encode [CHR 0xFB, CHR 0xEF, CHR 0xBE] False = Some ''++++''"
    by (simp add: encode_eval)
  moreover have "base64_encode [CHR 0xFB, CHR 0xFF, CHR 0xBF] True = Some ''-_-_''"
    by (simp add: encode_eval)
  moreover have "to_base64_chars True ! 62 = CHR ''-'' \<and> to_base64_chars True ! 63 = CHR ''_''"
    by (simp add: to_base64_chars_def)
  moreover have "CHR ''+'' \<notin> set (to_base64_chars True) \<and> CHR ''/'' \<notin> set (to_base64_chars True)"
    by (simp add: to_base64_chars_def)
  ultimately show ?thesis by blast
qed


end
